theory Spec2Isabelle
  imports Main "HOL-Library.Product_Lexorder" "HOL-Library.Multiset"
begin

section \<open>The anonymiser: data model\<close>

text \<open>
  The program is the single function \<open>mask_entities_and_contacts\<close> of
  \<^verbatim>\<open>src/anonimizador/main.py\<close>. The text is a Python \<open>str\<close>, modelled as a
  \<open>string\<close>; character offsets are the non-negative integers that spaCy spans and
  \<open>re\<close> matches carry, modelled as \<open>nat\<close>.
\<close>

text \<open>
  A spaCy \<open>Span\<close>: its token range \<open>[start, end)\<close>, its character range
  \<open>[start_char, end_char)\<close> and its label string \<open>label_\<close> (here \<open>span_label\<close>). (\<open>end\<close> is a
  keyword of Isabelle, so the two token indices are called \<open>tok_start\<close>, \<open>tok_end\<close>.)
\<close>

record span =
  tok_start :: nat
  tok_end :: nat
  start_char :: nat
  end_char :: nat
  span_label :: string

text \<open>
  A spaCy \<open>Doc\<close> as far as the function reads it: the tokens, each as its character
  offset \<open>idx\<close> and its length, and the entities \<open>doc.ents\<close>.
\<close>

record doc =
  tokens :: "(nat \<times> nat) list"
  ents :: "span list"

text \<open>One dictionary \<open>{'text': ..., 'label': ...}\<close> of \<open>entities_found\<close>.\<close>

record entity =
  etext :: string
  elabel :: string

section \<open>Library operations the function calls\<close>

text \<open>Python's \<open>text[i:j]\<close> and \<open>text[i:]\<close> for non-negative \<open>i\<close>, \<open>j\<close>.\<close>

definition slice :: "'a list \<Rightarrow> nat \<Rightarrow> nat \<Rightarrow> 'a list" where
  "slice xs i j = take (j - i) (drop i xs)"

definition slice_from :: "'a list \<Rightarrow> nat \<Rightarrow> 'a list" where
  "slice_from xs i = drop i xs"

text \<open>\<open>span.text\<close>: the characters of the document text the span covers.\<close>

definition span_text :: "string \<Rightarrow> span \<Rightarrow> string" where
  "span_text text s = slice text (start_char s) (end_char s)"

text \<open>
  \<open>doc.char_span(start_idx, end_idx, label=...)\<close> of spaCy with its default strict
  alignment: a span is made only when \<open>start_idx\<close> is the first character of a token
  and \<open>end_idx\<close> is one past the last character of a token; otherwise the result
  is \<open>None\<close>.
\<close>

fun token_by_start :: "(nat \<times> nat) list \<Rightarrow> nat \<Rightarrow> nat \<Rightarrow> nat option" where
  "token_by_start [] i start_idx = None"
| "token_by_start ((idx, len) # toks) i start_idx =
     (if idx = start_idx then Some i else token_by_start toks (Suc i) start_idx)"

fun token_by_end :: "(nat \<times> nat) list \<Rightarrow> nat \<Rightarrow> nat \<Rightarrow> nat option" where
  "token_by_end [] i end_idx = None"
| "token_by_end ((idx, len) # toks) i end_idx =
     (if idx + len = end_idx then Some i else token_by_end toks (Suc i) end_idx)"

definition char_span :: "doc \<Rightarrow> nat \<Rightarrow> nat \<Rightarrow> string \<Rightarrow> span option" where
  "char_span d start_idx end_idx label =
     (case token_by_start (tokens d) 0 start_idx of
        None \<Rightarrow> None
      | Some s \<Rightarrow>
          (case token_by_end (tokens d) 0 end_idx of
             None \<Rightarrow> None
           | Some e \<Rightarrow>
               Some \<lparr>tok_start = s, tok_end = Suc e, start_char = start_idx,
                     end_char = end_idx, span_label = label\<rparr>))"


section \<open>Regular expressions: the fragment of Python's \<open>re\<close> the rules use\<close>

text \<open>
  A character is read as a code point below 256. The three classes are those of
  \<open>re\<close> on \<open>str\<close> patterns for these code points: \<open>\d\<close> is \<open>0\<close>-\<open>9\<close>;
  \<open>\w\<close> is the alphanumeric code points and the underscore; \<open>\s\<close> is the
  whitespace code points.
\<close>

definition in_range :: "nat \<Rightarrow> nat \<Rightarrow> char \<Rightarrow> bool" where
  "in_range lo hi c = (lo \<le> (of_char c :: nat) \<and> (of_char c :: nat) \<le> hi)"

definition is_digit :: "char \<Rightarrow> bool" where
  "is_digit c = in_range 48 57 c"

definition is_word :: "char \<Rightarrow> bool" where
  "is_word c = (in_range 48 57 c \<or> in_range 65 90 c \<or> in_range 95 95 c \<or> in_range 97 122 c
     \<or> in_range 170 170 c \<or> in_range 178 179 c \<or> in_range 181 181 c \<or> in_range 185 186 c
     \<or> in_range 188 190 c \<or> in_range 192 214 c \<or> in_range 216 246 c \<or> in_range 248 255 c)"

definition is_space :: "char \<Rightarrow> bool" where
  "is_space c = (in_range 9 13 c \<or> in_range 28 32 c \<or> in_range 133 133 c \<or> in_range 160 160 c)"

text \<open>
  Case folding under \<open>re.IGNORECASE\<close>, for the literals of the rules (the ASCII
  letters \<open>c p f n j t e l o\<close>, digits and punctuation): an ASCII capital becomes
  its small letter.
\<close>

definition lower :: "char \<Rightarrow> char" where
  "lower c = (if in_range 65 90 c then char_of ((of_char c :: nat) + 32) else c)"

datatype cls = Digit | Word | Space | Lit char | OneOf "cls list"

fun cmatch :: "cls \<Rightarrow> char \<Rightarrow> bool" where
  "cmatch Digit c = is_digit c"
| "cmatch Word c = is_word c"
| "cmatch Space c = is_space c"
| "cmatch (Lit a) c = (lower a = lower c)"
| "cmatch (OneOf ks) c = (\<exists>k \<in> set ks. cmatch k c)"

text \<open>
  A pattern is a sequence of items: \<open>\b\<close>; one character of a class; a greedy
  repetition \<open>{lo,hi}\<close> of a class (\<open>hi = None\<close> for no upper bound, so
  \<open>*\<close> is \<open>Rep c 0 None\<close>, \<open>+\<close> is \<open>Rep c 1 None\<close>, \<open>?\<close> is
  \<open>Rep c 0 (Some 1)\<close>); an optional group \<open>(...)?\<close>.
\<close>

datatype re_item = Boundary | Atom cls | Rep cls nat "nat option" | Opt "re_item list"

definition word_at :: "string \<Rightarrow> nat \<Rightarrow> bool" where
  "word_at t i = (i < length t \<and> is_word (t ! i))"

definition at_boundary :: "string \<Rightarrow> nat \<Rightarrow> bool" where
  "at_boundary t i = ((0 < i \<and> word_at t (i - 1)) \<noteq> word_at t i)"

fun item_size :: "re_item \<Rightarrow> nat" where
  "item_size Boundary = 1"
| "item_size (Atom c) = 1"
| "item_size (Rep c lo hi) = 1"
| "item_size (Opt g) = Suc (sum_list (map item_size g))"

definition hi_dec :: "nat option \<Rightarrow> nat option" where
  "hi_dec hi = (case hi of None \<Rightarrow> None | Some h \<Rightarrow> Some (h - 1))"

text \<open>
  The backtracking matcher: \<open>re_match p t i\<close> is the end of the first match of the
  item sequence \<open>p\<close> that starts at offset \<open>i\<close> of \<open>t\<close>, in the order in which
  \<open>re\<close> tries the alternatives (a repetition takes one more character before it tries
  to stop; an optional group is tried before it is skipped).
\<close>

function re_match :: "re_item list \<Rightarrow> string \<Rightarrow> nat \<Rightarrow> nat option" where
  "re_match [] t i = Some i"
| "re_match (Boundary # rs) t i = (if at_boundary t i then re_match rs t i else None)"
| "re_match (Atom c # rs) t i =
     (if i < length t \<and> cmatch c (t ! i) then re_match rs t (Suc i) else None)"
| "re_match (Rep c lo hi # rs) t i =
     (if hi \<noteq> Some 0 \<and> i < length t \<and> cmatch c (t ! i) then
        (case re_match (Rep c (lo - 1) (hi_dec hi) # rs) t (Suc i) of
           Some e \<Rightarrow> Some e
         | None \<Rightarrow> if lo = 0 then re_match rs t i else None)
      else if lo = 0 then re_match rs t i else None)"
| "re_match (Opt g # rs) t i =
     (case re_match (g @ rs) t i of
        Some e \<Rightarrow> Some e
      | None \<Rightarrow> re_match rs t i)"
  by pat_completeness auto
termination
  by (relation "measures [\<lambda>(p, t, i). sum_list (map item_size p), \<lambda>(p, t, i). length t - i]")
     auto

declare re_match.simps(4) [simp del]

text \<open>
  \<open>re.finditer(pattern, text, flags=re.IGNORECASE)\<close> as the list of the matches'
  \<open>(start(), end())\<close>: the scan tries each offset from the left and resumes at the
  end of a match.
\<close>

function scan :: "re_item list \<Rightarrow> string \<Rightarrow> nat \<Rightarrow> (nat \<times> nat) list" where
  "scan p t pos =
     (if length t < pos then []
      else (case re_match p t pos of
              Some e \<Rightarrow> (pos, e) # scan p t (max (Suc pos) e)
            | None \<Rightarrow> scan p t (Suc pos)))"
  by pat_completeness auto
termination
  by (relation "measure (\<lambda>(p, t, pos). Suc (length t) - pos)") auto

declare scan.simps [simp del]

definition finditer :: "re_item list \<Rightarrow> string \<Rightarrow> (nat \<times> nat) list" where
  "finditer p t = scan p t 0"


section \<open>The four rules\<close>

definition lit :: "string \<Rightarrow> re_item list" where
  "lit s = map (\<lambda>c. Atom (Lit c)) s"

definition times :: "cls \<Rightarrow> nat \<Rightarrow> re_item" where
  "times c n = Rep c n (Some n)"

definition star :: "cls \<Rightarrow> re_item" where
  "star c = Rep c 0 None"

definition plus1 :: "cls \<Rightarrow> re_item" where
  "plus1 c = Rep c 1 None"

definition opt1 :: "cls \<Rightarrow> re_item" where
  "opt1 c = Rep c 0 (Some 1)"

text \<open>\<^verbatim>\<open>\b(?:CPF\s*)?\d{3}\.\d{3}\.\d{3}-\d{2}\b\<close>\<close>

definition cpf_pattern :: "re_item list" where
  "cpf_pattern =
     [Boundary, Opt (lit ''CPF'' @ [star Space]), times Digit 3] @ lit ''.'' @
     [times Digit 3] @ lit ''.'' @ [times Digit 3] @ lit ''-'' @ [times Digit 2, Boundary]"

text \<open>\<^verbatim>\<open>\b(?:CNPJ\s*)?\d{2}\.\d{3}\.\d{3}/\d{4}-\d{2}\b\<close>\<close>

definition cnpj_pattern :: "re_item list" where
  "cnpj_pattern =
     [Boundary, Opt (lit ''CNPJ'' @ [star Space]), times Digit 2] @ lit ''.'' @
     [times Digit 3] @ lit ''.'' @ [times Digit 3] @ lit ''/'' @ [times Digit 4] @
     lit ''-'' @ [times Digit 2, Boundary]"

text \<open>\<^verbatim>\<open>\b(?:telefone\s*)?(\(?\d{2}\)?\s*)?9?\d{4}-\d{4}\b\<close>\<close>

definition telefone_pattern :: "re_item list" where
  "telefone_pattern =
     [Boundary, Opt (lit ''telefone'' @ [star Space]),
      Opt [opt1 (Lit CHR ''(''), times Digit 2, opt1 (Lit CHR '')''), star Space],
      opt1 (Lit CHR ''9''), times Digit 4] @ lit ''-'' @ [times Digit 4, Boundary]"

text \<open>\<^verbatim>\<open>\b[\w\.-]+@[\w\.-]+\.\w{2,4}\b\<close>\<close>

definition email_pattern :: "re_item list" where
  "email_pattern =
     [Boundary, plus1 (OneOf [Word, Lit CHR ''.'', Lit CHR ''-''])] @ lit ''@'' @
     [plus1 (OneOf [Word, Lit CHR ''.'', Lit CHR ''-''])] @ lit ''.'' @
     [Rep Word 2 (Some 4), Boundary]"

text \<open>One dictionary \<open>{'label': ..., 'pattern': ...}\<close> of the list \<open>patterns\<close>.\<close>

record rule =
  label :: string
  pattern :: "re_item list"

definition patterns :: "rule list" where
  "patterns =
     [\<lparr>label = ''CPF'', pattern = cpf_pattern\<rparr>,
      \<lparr>label = ''CNPJ'', pattern = cnpj_pattern\<rparr>,
      \<lparr>label = ''TELEFONE'', pattern = telefone_pattern\<rparr>,
      \<lparr>label = ''EMAIL'', pattern = email_pattern\<rparr>]"

section \<open>\<open>spacy.util.filter_spans\<close>\<close>

text \<open>
  The overlap filter of spaCy, which the function imports and calls on the candidate
  list. It sorts the spans by the key \<open>(end - start, -start)\<close> on token indices,
  in reverse (Python's \<open>sorted(..., reverse=True)\<close> keeps the original order of
  spans with equal keys); it then takes each span whose first and last token are both
  unseen, marking its tokens as seen; the result is sorted by \<open>start\<close>.
\<close>

definition get_sort_key :: "span \<Rightarrow> int \<times> int" where
  "get_sort_key s = (int (tok_end s) - int (tok_start s), - int (tok_start s))"

definition sorted_reverse :: "('a \<Rightarrow> 'k::linorder) \<Rightarrow> 'a list \<Rightarrow> 'a list" where
  "sorted_reverse key xs = rev (sort_key key (rev xs))"

fun filter_loop :: "span list \<Rightarrow> span list \<Rightarrow> int set \<Rightarrow> span list" where
  "filter_loop [] result seen_tokens = result"
| "filter_loop (s # sorted_spans) result seen_tokens =
     (if int (tok_start s) \<notin> seen_tokens \<and> int (tok_end s) - 1 \<notin> seen_tokens
      then filter_loop sorted_spans (result @ [s])
             (seen_tokens \<union> {int (tok_start s) ..< int (tok_end s)})
      else filter_loop sorted_spans result seen_tokens)"

definition filter_spans :: "span list \<Rightarrow> span list" where
  "filter_spans spans =
     sort_key tok_start (filter_loop (sorted_reverse get_sort_key spans) [] {})"

section \<open>\<open>mask_entities_and_contacts\<close>\<close>

definition ner_labels :: "string list" where
  "ner_labels = [''PER'', ''ORG'', ''LOC'', ''GPE'']"

text \<open>Lines 32-39: the loop over \<open>doc.ents\<close>, on \<open>(spans, entities_found)\<close>.\<close>

fun ents_loop :: "string \<Rightarrow> span list \<Rightarrow> (nat \<times> nat) list \<times> entity list
    \<Rightarrow> (nat \<times> nat) list \<times> entity list" where
  "ents_loop text [] (spans, entities_found) = (spans, entities_found)"
| "ents_loop text (ent # rest) (spans, entities_found) =
     (if span_label ent \<in> set ner_labels
      then ents_loop text rest
             (spans @ [(start_char ent, end_char ent)],
              entities_found @ [\<lparr>etext = span_text text ent, elabel = span_label ent\<rparr>])
      else ents_loop text rest (spans, entities_found))"

text \<open>
  Lines 68-80: the loop over the matches of one rule, on
  \<open>(new_ents, entities_found, spans)\<close>.
\<close>

fun match_loop :: "string \<Rightarrow> doc \<Rightarrow> string \<Rightarrow> (nat \<times> nat) list
    \<Rightarrow> span list \<times> entity list \<times> (nat \<times> nat) list
    \<Rightarrow> span list \<times> entity list \<times> (nat \<times> nat) list" where
  "match_loop text d lbl [] st = st"
| "match_loop text d lbl ((match_start, match_end) # rest) (new_ents, entities_found, spans) =
     (case char_span d match_start match_end lbl of
        None \<Rightarrow> match_loop text d lbl rest (new_ents, entities_found, spans)
      | Some span \<Rightarrow>
          match_loop text d lbl rest
            (new_ents @ [span],
             entities_found @ [\<lparr>etext = span_text text span, elabel = span_label span\<rparr>],
             spans @ [(start_char span, end_char span)]))"

text \<open>Lines 66-80: the loop over the rules.\<close>

fun patterns_loop :: "string \<Rightarrow> doc \<Rightarrow> rule list
    \<Rightarrow> span list \<times> entity list \<times> (nat \<times> nat) list
    \<Rightarrow> span list \<times> entity list \<times> (nat \<times> nat) list" where
  "patterns_loop text d [] st = st"
| "patterns_loop text d (item # rest) st =
     patterns_loop text d rest
       (match_loop text d (label item) (finditer (pattern item) text) st)"

text \<open>
  Lines 23-80 together: the three lists the function has collected when the loops
  are over, as \<open>(new_ents, entities_found, spans)\<close>.
\<close>

definition collect :: "doc \<Rightarrow> string \<Rightarrow> span list \<times> entity list \<times> (nat \<times> nat) list" where
  "collect d text =
     (let (spans, entities_found) = ents_loop text (ents d) ([], []);
          new_ents = ents d
      in patterns_loop text d patterns (new_ents, entities_found, spans))"

text \<open>Lines 92-103: the merge loop, on \<open>merged_spans\<close>.\<close>

fun merge_loop :: "(nat \<times> nat) list \<Rightarrow> (nat \<times> nat) list \<Rightarrow> (nat \<times> nat) list" where
  "merge_loop [] merged_spans = merged_spans"
| "merge_loop (span # rest) merged_spans =
     (if merged_spans = [] then merge_loop rest (merged_spans @ [span])
      else
        let last_span = last merged_spans in
        if fst span \<le> snd last_span
        then
          let new_span = (fst last_span, max (snd last_span) (snd span)) in
          merge_loop rest (merged_spans[length merged_spans - 1 := new_span])
        else merge_loop rest (merged_spans @ [span]))"

text \<open>Lines 106-111: the loop that builds the text, on \<open>(masked_text, last_idx)\<close>.\<close>

definition mask :: string where
  "mask = ''********''"

fun build_loop :: "string \<Rightarrow> (nat \<times> nat) list \<Rightarrow> string \<times> nat \<Rightarrow> string \<times> nat" where
  "build_loop text [] (masked_text, last_idx) = (masked_text, last_idx)"
| "build_loop text ((start, end') # rest) (masked_text, last_idx) =
     build_loop text rest (masked_text @ slice text last_idx start @ mask, end')"

text \<open>Lines 89-112: from the collected \<open>spans\<close> to \<open>masked_text\<close>.\<close>

definition mask_spans :: "string \<Rightarrow> (nat \<times> nat) list \<Rightarrow> string" where
  "mask_spans text spans =
     (let spans = sort_key fst spans;
          merged_spans = merge_loop spans [];
          (masked_text, last_idx) = build_loop text merged_spans ([], 0)
      in masked_text @ slice_from text last_idx)"

text \<open>
  The function. The language model \<open>nlp\<close>, a module-level global of the source,
  is its first argument; the value is the triple
  \<open>(masked_text, entities_found, doc)\<close>, the document with its entities replaced by
  the filtered ones.
\<close>

definition mask_entities_and_contacts :: "(string \<Rightarrow> doc) \<Rightarrow> string \<Rightarrow> string \<times> entity list \<times> doc" where
  "mask_entities_and_contacts nlp text =
     (let d = nlp text;
          (new_ents, entities_found, spans) = collect d text;
          filtered_ents = filter_spans new_ents;
          d = d\<lparr>ents := filtered_ents\<rparr>
      in (mask_spans text spans, entities_found, d))"

text \<open>The three components of the result, and the \<open>spans\<close> list behind the first.\<close>

definition masked_text :: "(string \<Rightarrow> doc) \<Rightarrow> string \<Rightarrow> string" where
  "masked_text nlp text = fst (mask_entities_and_contacts nlp text)"

definition entity_report :: "(string \<Rightarrow> doc) \<Rightarrow> string \<Rightarrow> entity list" where
  "entity_report nlp text = fst (snd (mask_entities_and_contacts nlp text))"

definition accepted_ents :: "(string \<Rightarrow> doc) \<Rightarrow> string \<Rightarrow> span list" where
  "accepted_ents nlp text = ents (snd (snd (mask_entities_and_contacts nlp text)))"

definition candidates :: "(string \<Rightarrow> doc) \<Rightarrow> string \<Rightarrow> span list" where
  "candidates nlp text = fst (collect (nlp text) text)"

definition raw_spans :: "(string \<Rightarrow> doc) \<Rightarrow> string \<Rightarrow> (nat \<times> nat) list" where
  "raw_spans nlp text = snd (snd (collect (nlp text) text))"

section \<open>Notions of the specification\<close>

text \<open>The contribution of one span to \<open>spans\<close> and to \<open>entities_found\<close>.\<close>

definition span_offsets :: "span \<Rightarrow> nat \<times> nat" where
  "span_offsets s = (start_char s, end_char s)"

definition entity_of :: "string \<Rightarrow> span \<Rightarrow> entity" where
  "entity_of text s = \<lparr>etext = span_text text s, elabel = span_label s\<rparr>"

text \<open>The extractor's entities that carry one of the four linguistic labels.\<close>

definition reported_ents :: "doc \<Rightarrow> span list" where
  "reported_ents d = filter (\<lambda>ent. span_label ent \<in> set ner_labels) (ents d)"

text \<open>
  The matches of one rule that \<open>char_span\<close> maps onto a span, in the order of the
  matches; and these for a list of rules, rule after rule.
\<close>

definition kept_matches :: "doc \<Rightarrow> string \<Rightarrow> (nat \<times> nat) list \<Rightarrow> span list" where
  "kept_matches d lbl ms = List.map_filter (\<lambda>(s, e). char_span d s e lbl) ms"

definition matched_spans :: "doc \<Rightarrow> string \<Rightarrow> rule list \<Rightarrow> span list" where
  "matched_spans d text rs =
     concat (map (\<lambda>item. kept_matches d (label item) (finditer (pattern item) text)) rs)"

text \<open>The invariant of the data model on raw spans: \<open>0 \<le> start < end \<le> len(text)\<close>.\<close>

definition valid_spans :: "string \<Rightarrow> (nat \<times> nat) list \<Rightarrow> bool" where
  "valid_spans text spans = (\<forall>(s, e) \<in> set spans. s < e \<and> e \<le> length text)"

text \<open>
  The merge pass in the words of the specification: walk the sorted list with a current
  open interval; a next interval with \<open>start \<le> current.end\<close> extends the current
  one to the larger end; otherwise the current one is closed and the next one opened.
\<close>

fun spec_merge_from :: "nat \<times> nat \<Rightarrow> (nat \<times> nat) list \<Rightarrow> (nat \<times> nat) list" where
  "spec_merge_from current [] = [current]"
| "spec_merge_from current (next' # rest) =
     (if fst next' \<le> snd current
      then spec_merge_from (fst current, max (snd current) (snd next')) rest
      else current # spec_merge_from next' rest)"

fun spec_merge :: "(nat \<times> nat) list \<Rightarrow> (nat \<times> nat) list" where
  "spec_merge [] = []"
| "spec_merge (first # rest) = spec_merge_from first rest"

text \<open>
  The rebuilt text in the words of the specification: from the cursor, for each merged
  interval the untouched slice up to its start, then one mask token, the cursor moving to
  its end; after the last interval the remaining tail.
\<close>

fun rebuild :: "string \<Rightarrow> nat \<Rightarrow> (nat \<times> nat) list \<Rightarrow> string" where
  "rebuild text cursor [] = slice_from text cursor"
| "rebuild text cursor ((s, e) # ms) = slice text cursor s @ mask @ rebuild text e ms"

text \<open>Consecutive intervals of a list leave at least one position between them.\<close>

fun separated :: "(nat \<times> nat) list \<Rightarrow> bool" where
  "separated [] = True"
| "separated [m] = True"
| "separated (m # m' # ms) = (snd m < fst m' \<and> separated (m' # ms))"

text \<open>
  Coverage: a position is covered when it lies inside a raw span. \<open>render\<close> reads
  the text from the left, position by position: a position that is not covered yields its
  own character; a maximal run of covered positions yields one mask token, written at
  the first position of the run (\<open>prev\<close> tells whether the position before was
  covered).
\<close>

definition covered :: "(nat \<times> nat) list \<Rightarrow> nat \<Rightarrow> bool" where
  "covered spans p = (\<exists>(s, e) \<in> set spans. s \<le> p \<and> p < e)"

fun render :: "(nat \<Rightarrow> bool) \<Rightarrow> nat \<Rightarrow> bool \<Rightarrow> string \<Rightarrow> string" where
  "render cov p prev [] = []"
| "render cov p prev (c # cs) =
     (if cov p then (if prev then [] else mask) @ render cov (Suc p) True cs
      else c # render cov (Suc p) False cs)"

text \<open>
  Intervals in ascending order from position \<open>p\<close> on, each non-empty, each starting
  after the end of the one before.
\<close>

fun chain :: "nat \<Rightarrow> (nat \<times> nat) list \<Rightarrow> bool" where
  "chain p [] = True"
| "chain p ((s, e) # ms) = (p \<le> s \<and> s < e \<and> chain (Suc e) ms)"

text \<open>
  A match of a rule is kept when \<open>char_span\<close> maps its offsets onto a span
  (line 73: \<open>if span is not None\<close>).
\<close>

definition mappable :: "doc \<Rightarrow> string \<Rightarrow> nat \<times> nat \<Rightarrow> bool" where
  "mappable d lbl m = (char_span d (fst m) (snd m) lbl \<noteq> None)"

text \<open>
  Overlap of two character ranges, of the character ranges of two spans and of their
  token ranges; a list of character ranges no two of which overlap.
\<close>

definition overlap :: "nat \<times> nat \<Rightarrow> nat \<times> nat \<Rightarrow> bool" where
  "overlap a b = (max (fst a) (fst b) < min (snd a) (snd b))"

definition char_overlap :: "span \<Rightarrow> span \<Rightarrow> bool" where
  "char_overlap a b = overlap (span_offsets a) (span_offsets b)"

definition tok_overlap :: "span \<Rightarrow> span \<Rightarrow> bool" where
  "tok_overlap a b = (max (tok_start a) (tok_start b) < min (tok_end a) (tok_end b))"

fun disjoint_spans :: "(nat \<times> nat) list \<Rightarrow> bool" where
  "disjoint_spans [] = True"
| "disjoint_spans (a # rest) = ((\<forall>b \<in> set rest. \<not> overlap a b) \<and> disjoint_spans rest)"

text \<open>The length of a span in characters and in tokens.\<close>

definition char_len :: "span \<Rightarrow> int" where
  "char_len s = int (end_char s) - int (start_char s)"

definition tok_len :: "span \<Rightarrow> int" where
  "tok_len s = int (tok_end s) - int (tok_start s)"

text \<open>
  The reconciliation in the words of the specification: the candidates sorted by length,
  longest first, candidates of equal length in their order of insertion (the sort is
  stable); a candidate is accepted when its characters overlap those of no candidate
  accepted before, and discarded otherwise.
\<close>

fun claimed_greedy :: "span list \<Rightarrow> span list \<Rightarrow> span list" where
  "claimed_greedy [] accepted = accepted"
| "claimed_greedy (c # cs) accepted =
     (if \<forall>a \<in> set accepted. \<not> char_overlap a c then claimed_greedy cs (accepted @ [c])
      else claimed_greedy cs accepted)"

definition claimed_reconcile :: "span list \<Rightarrow> span list" where
  "claimed_reconcile cands = claimed_greedy (sort_key (\<lambda>s. - char_len s) cands) []"

text \<open>
  The reconciliation as \<open>filter_spans\<close> is shown to do it: the candidates in ascending
  order of the key (minus the length in tokens, start token), candidates of equal key in
  their order of insertion; a candidate is accepted when it shares a token with no
  candidate accepted before. \<open>seen_of\<close> is the set of tokens of the accepted spans.
\<close>

definition order_key :: "span \<Rightarrow> int \<times> int" where
  "order_key s = (- (int (tok_end s) - int (tok_start s)), int (tok_start s))"

fun greedy_accept :: "span list \<Rightarrow> span list \<Rightarrow> span list" where
  "greedy_accept [] accepted = accepted"
| "greedy_accept (c # cs) accepted =
     (if \<forall>a \<in> set accepted. \<not> tok_overlap a c then greedy_accept cs (accepted @ [c])
      else greedy_accept cs accepted)"

definition seen_of :: "span list \<Rightarrow> int set" where
  "seen_of accepted = (\<Union>a \<in> set accepted. {int (tok_start a) ..< int (tok_end a)})"

text \<open>The eight label strings of the external contract.\<close>

definition all_labels :: "string list" where
  "all_labels = [''PER'', ''ORG'', ''LOC'', ''GPE'', ''CPF'', ''CNPJ'', ''TELEFONE'', ''EMAIL'']"


section \<open>Example inputs\<close>

text \<open>
  The text \<open>a@b.co ok\<close>, read by a language model that makes the address one
  token and tags it as a person.
\<close>

definition example_doc :: doc where
  "example_doc =
     \<lparr>tokens = [(0, 6), (7, 2)],
      ents = [\<lparr>tok_start = 0, tok_end = 1, start_char = 0, end_char = 6,
               span_label = ''PER''\<rparr>]\<rparr>"

definition example_nlp :: "string \<Rightarrow> doc" where
  "example_nlp text = example_doc"

text \<open>
  The text \<open>Hello world\<close>, read by a language model that finds two tokens and no
  entity; for the empty text it finds no token.
\<close>

definition plain_doc :: doc where
  "plain_doc = \<lparr>tokens = [(0, 5), (6, 5)], ents = []\<rparr>"

definition plain_nlp :: "string \<Rightarrow> doc" where
  "plain_nlp text = (if text = [] then \<lparr>tokens = [], ents = []\<rparr> else plain_doc)"

text \<open>
  The two candidates of \<open>example_doc\<close> on \<open>a@b.co ok\<close>: the person of the language
  model and the match of the EMAIL rule, on the same token.
\<close>

definition per_span :: span where
  "per_span = \<lparr>tok_start = 0, tok_end = 1, start_char = 0, end_char = 6, span_label = ''PER''\<rparr>"

definition email_span :: span where
  "email_span =
     \<lparr>tok_start = 0, tok_end = 1, start_char = 0, end_char = 6, span_label = ''EMAIL''\<rparr>"

text \<open>
  The same text read as a single token of nine characters, with no entity: the match of
  the EMAIL rule ends inside the token.
\<close>

definition coarse_doc :: doc where
  "coarse_doc = \<lparr>tokens = [(0, 9)], ents = []\<rparr>"

definition coarse_nlp :: "string \<Rightarrow> doc" where
  "coarse_nlp text = coarse_doc"

text \<open>
  The text \<open>11 1234-5678 SP\<close>, read as the three tokens \<open>11\<close>, \<open>1234-5678\<close> and
  \<open>SP\<close>, with the last two tagged as one location. The TELEFONE rule matches the first
  two tokens: the two candidates have two tokens and twelve characters each.
\<close>

definition loc_span :: span where
  "loc_span = \<lparr>tok_start = 1, tok_end = 3, start_char = 3, end_char = 15, span_label = ''LOC''\<rparr>"

definition telefone_span :: span where
  "telefone_span =
     \<lparr>tok_start = 0, tok_end = 2, start_char = 0, end_char = 12, span_label = ''TELEFONE''\<rparr>"

definition tie_doc :: doc where
  "tie_doc = \<lparr>tokens = [(0, 2), (3, 9), (13, 2)], ents = [loc_span]\<rparr>"

definition tie_nlp :: "string \<Rightarrow> doc" where
  "tie_nlp text = tie_doc"




section \<open>The collected lists, the merge pass and the rebuilt text\<close>

lemma ents_loop_eq:
  "ents_loop text es (sp, fo) =
     (sp @ map span_offsets (filter (\<lambda>ent. span_label ent \<in> set ner_labels) es),
      fo @ map (entity_of text) (filter (\<lambda>ent. span_label ent \<in> set ner_labels) es))"
  by (induction es arbitrary: sp fo) (simp_all add: span_offsets_def entity_of_def)

lemma match_loop_eq:
  "match_loop text d lbl ms (ne, fo, sp) =
     (ne @ kept_matches d lbl ms,
      fo @ map (entity_of text) (kept_matches d lbl ms),
      sp @ map span_offsets (kept_matches d lbl ms))"
proof (induction ms arbitrary: ne fo sp)
  case Nil
  show ?case by (simp add: kept_matches_def List.map_filter_simps)
next
  case (Cons m ms)
  obtain s e where m: "m = (s, e)" by (cases m)
  show ?case
    by (cases "char_span d s e lbl")
       (simp_all add: m Cons kept_matches_def List.map_filter_simps span_offsets_def entity_of_def)
qed

lemma patterns_loop_eq:
  "patterns_loop text d rs (ne, fo, sp) =
     (ne @ matched_spans d text rs,
      fo @ map (entity_of text) (matched_spans d text rs),
      sp @ map span_offsets (matched_spans d text rs))"
  by (induction rs arbitrary: ne fo sp) (simp_all add: matched_spans_def match_loop_eq)

lemma collect_eq:
  "collect d text =
     (ents d @ matched_spans d text patterns,
      map (entity_of text) (reported_ents d @ matched_spans d text patterns),
      map span_offsets (reported_ents d @ matched_spans d text patterns))"
  by (simp add: collect_def ents_loop_eq patterns_loop_eq reported_ents_def)

lemma merge_loop_snoc:
  "merge_loop xs (acc @ [cur]) = acc @ spec_merge_from cur xs"
proof (induction xs arbitrary: acc cur)
  case Nil
  show ?case by simp
next
  case (Cons x xs)
  have upd: "(acc @ [cur])[length (acc @ [cur]) - 1 := v] = acc @ [v]" for v
    by simp
  show ?case
  proof (cases "fst x \<le> snd cur")
    case True
    then show ?thesis
      using Cons [of acc "(fst cur, max (snd cur) (snd x))"] by (simp add: Let_def)
  next
    case False
    then show ?thesis
      using Cons [of "acc @ [cur]" x] by (simp add: Let_def)
  qed
qed

lemma merge_loop_spec: "merge_loop xs [] = spec_merge xs"
proof (cases xs)
  case Nil
  then show ?thesis by simp
next
  case (Cons x rest)
  have "merge_loop rest ([] @ [x]) = [] @ spec_merge_from x rest"
    by (rule merge_loop_snoc)
  then show ?thesis by (simp add: Cons)
qed

lemma build_loop_rebuild:
  "build_loop text ms (acc, cur) = (a, l) \<Longrightarrow> a @ slice_from text l = acc @ rebuild text cur ms"
proof (induction ms arbitrary: acc cur)
  case Nil
  then show ?case by simp
next
  case (Cons m ms)
  obtain s e where m: "m = (s, e)" by (cases m)
  from Cons.prems have "build_loop text ms (acc @ slice text cur s @ mask, e) = (a, l)"
    by (simp add: m)
  from Cons.IH [OF this] show ?case by (simp add: m)
qed

lemma mask_spans_rebuild:
  "mask_spans text spans = rebuild text 0 (spec_merge (sort_key fst spans))"
proof -
  obtain a l where b: "build_loop text (spec_merge (sort_key fst spans)) ([], 0) = (a, l)"
    by (cases "build_loop text (spec_merge (sort_key fst spans)) ([], 0)")
  from build_loop_rebuild [OF b] show ?thesis
    by (simp add: mask_spans_def Let_def merge_loop_spec b)
qed

lemma render_cong:
  "(\<And>q. p \<le> q \<Longrightarrow> cov q = cov' q) \<Longrightarrow> render cov p prev cs = render cov' p prev cs"
proof (induction cs arbitrary: p prev)
  case Nil
  show ?case by simp
next
  case (Cons c cs)
  have h: "cov p = cov' p" using Cons.prems by simp
  have "render cov (Suc p) b cs = render cov' (Suc p) b cs" for b
    by (rule Cons.IH) (simp add: Cons.prems)
  then show ?case by (simp add: h)
qed

lemma render_uncovered:
  "(\<And>q. p \<le> q \<Longrightarrow> q < p + length xs \<Longrightarrow> \<not> cov q) \<Longrightarrow>
   render cov p prev (xs @ ys) = xs @ render cov (p + length xs) (prev \<and> xs = []) ys"
proof (induction xs arbitrary: p prev)
  case Nil
  show ?case by simp
next
  case (Cons x xs)
  have np: "\<not> cov p" using Cons.prems [of p] by simp
  have "render cov (Suc p) False (xs @ ys) =
        xs @ render cov (Suc p + length xs) (False \<and> xs = []) ys"
    by (rule Cons.IH) (use Cons.prems in simp)
  then show ?case by (simp add: np)
qed

lemma render_covered_prev:
  "(\<And>q. p \<le> q \<Longrightarrow> q < p + length xs \<Longrightarrow> cov q) \<Longrightarrow>
   render cov p True (xs @ ys) = render cov (p + length xs) True ys"
proof (induction xs arbitrary: p)
  case Nil
  show ?case by simp
next
  case (Cons x xs)
  have cp: "cov p" using Cons.prems [of p] by simp
  have "render cov (Suc p) True (xs @ ys) = render cov (Suc p + length xs) True ys"
    by (rule Cons.IH) (use Cons.prems in simp)
  then show ?case by (simp add: cp)
qed

lemma render_covered:
  assumes "\<And>q. p \<le> q \<Longrightarrow> q < p + length xs \<Longrightarrow> cov q" and "xs \<noteq> []"
  shows "render cov p False (xs @ ys) = mask @ render cov (p + length xs) True ys"
proof -
  obtain x xs' where xs: "xs = x # xs'" using assms(2) by (cases xs) auto
  have cp: "cov p" using assms(1) [of p] by (simp add: xs)
  have "render cov (Suc p) True (xs' @ ys) = render cov (Suc p + length xs') True ys"
    by (rule render_covered_prev) (use assms(1) xs in simp)
  then show ?thesis by (simp add: xs cp)
qed

lemma render_prev_irrelevant:
  "cs = [] \<or> \<not> cov p \<Longrightarrow> render cov p True cs = render cov p False cs"
  by (cases cs) auto

lemma chain_mono: "chain p' ms \<Longrightarrow> p \<le> p' \<Longrightarrow> chain p ms"
  by (cases ms) auto

lemma chain_not_covered: "chain p ms \<Longrightarrow> q < p \<Longrightarrow> \<not> covered ms q"
proof (induction ms arbitrary: p)
  case Nil
  show ?case by (simp add: covered_def)
next
  case (Cons m ms)
  obtain s e where m: "m = (s, e)" by (cases m)
  from Cons.prems have c: "chain (Suc e) ms" and ps: "p \<le> s" "s < e" by (simp_all add: m)
  have "\<not> covered ms q" by (rule Cons.IH [OF c]) (use Cons.prems ps in simp)
  then show ?case using Cons.prems ps by (simp add: covered_def m)
qed

lemma covered_Cons: "covered ((s, e) # ms) q = ((s \<le> q \<and> q < e) \<or> covered ms q)"
  by (auto simp: covered_def)

lemma rebuild_render:
  "chain p ms \<Longrightarrow> (\<And>s e. (s, e) \<in> set ms \<Longrightarrow> e \<le> length text) \<Longrightarrow>
   rebuild text p ms = render (covered ms) p False (drop p text)"
proof (induction ms arbitrary: p)
  case Nil
  have "render (covered []) p False (drop p text @ []) =
        drop p text @ render (covered []) (p + length (drop p text)) (False \<and> drop p text = []) []"
    by (rule render_uncovered) (simp add: covered_def)
  then show ?case by (simp add: slice_from_def)
next
  case (Cons m ms)
  obtain s e where m: "m = (s, e)" by (cases m)
  let ?cov = "covered ((s, e) # ms)"
  from Cons.prems(1) have ps: "p \<le> s" and se: "s < e" and c: "chain (Suc e) ms"
    by (simp_all add: m)
  have en: "e \<le> length text" using Cons.prems(2) [of s e] by (simp add: m)
  have ce: "chain e ms" using c by (rule chain_mono) simp
  have bound: "\<And>s' e'. (s', e') \<in> set ms \<Longrightarrow> e' \<le> length text"
    using Cons.prems(2) by (auto simp: m)
  have ih: "rebuild text e ms = render (covered ms) e False (drop e text)"
    by (rule Cons.IH [OF ce bound])
  have split: "drop p text = slice text p s @ slice text s e @ drop e text"
  proof -
    have a: "drop (s - p) (drop p text) = drop s text" using ps by simp
    have b: "drop (e - s) (drop s text) = drop e text" using se by simp
    have "drop p text = take (s - p) (drop p text) @ drop (s - p) (drop p text)"
      by (rule append_take_drop_id [symmetric])
    also have "\<dots> = take (s - p) (drop p text) @ drop s text" by (simp only: a)
    also have "drop s text = take (e - s) (drop s text) @ drop (e - s) (drop s text)"
      by (rule append_take_drop_id [symmetric])
    also have "\<dots> = take (e - s) (drop s text) @ drop e text" by (simp only: b)
    finally show ?thesis by (simp add: slice_def)
  qed
  have lenA: "length (slice text p s) = s - p" using se en ps by (simp add: slice_def)
  have lenB: "length (slice text s e) = e - s" using se en by (simp add: slice_def)
  have notcov_ms: "\<not> covered ms q" if "q \<le> e" for q
    by (rule chain_not_covered [OF c]) (use that in simp)
  have A: "render ?cov p False (slice text p s @ (slice text s e @ drop e text)) =
           slice text p s @ render ?cov (p + length (slice text p s))
              (False \<and> slice text p s = []) (slice text s e @ drop e text)"
  proof (rule render_uncovered)
    fix q assume "p \<le> q" "q < p + length (slice text p s)"
    then have "q < s" using lenA ps by simp
    then show "\<not> ?cov q" using notcov_ms [of q] se by (simp add: covered_Cons)
  qed
  have B: "render ?cov s False (slice text s e @ drop e text) =
           mask @ render ?cov (s + length (slice text s e)) True (drop e text)"
  proof (rule render_covered)
    fix q assume "s \<le> q" "q < s + length (slice text s e)"
    then show "?cov q" using lenB se by (simp add: covered_Cons)
  next
    show "slice text s e \<noteq> []" using lenB se by auto
  qed
  have C: "render ?cov e True (drop e text) = render ?cov e False (drop e text)"
    by (rule render_prev_irrelevant) (simp add: covered_Cons notcov_ms)
  have D: "render ?cov e False (drop e text) = render (covered ms) e False (drop e text)"
  proof (rule render_cong)
    fix q assume "e \<le> q"
    then show "?cov q = covered ms q" by (simp add: covered_Cons)
  qed
  have ps': "p + (s - p) = s" using ps by simp
  have se': "s + (e - s) = e" using se by simp
  have "render ?cov p False (drop p text) = slice text p s @ mask @ rebuild text e ms"
    unfolding split A lenA ps' using B C D ih by (simp add: lenB se')
  then show ?case by (simp add: m)
qed

lemma spec_merge_from_props:
  "sorted (map fst xs) \<Longrightarrow> (\<And>x. x \<in> set xs \<Longrightarrow> fst cur \<le> fst x) \<Longrightarrow> fst cur < snd cur \<Longrightarrow>
   (\<And>x. x \<in> set xs \<Longrightarrow> fst x < snd x) \<Longrightarrow>
   chain (fst cur) (spec_merge_from cur xs) \<and>
   (\<forall>q. covered (spec_merge_from cur xs) q = covered (cur # xs) q) \<and>
   (\<forall>m \<in> set (spec_merge_from cur xs). \<exists>x \<in> set (cur # xs). snd m = snd x)"
proof (induction xs arbitrary: cur)
  case Nil
  obtain s e where cur: "cur = (s, e)" by (cases cur)
  show ?case using Nil by (simp add: cur)
next
  case (Cons x xs)
  obtain s e where cur: "cur = (s, e)" by (cases cur)
  obtain s' e' where x: "x = (s', e')" by (cases x)
  have srt: "sorted (map fst xs)" using Cons.prems(1) by simp
  have ss': "s \<le> s'" using Cons.prems(2) [of x] by (simp add: cur x)
  have se: "s < e" using Cons.prems(3) by (simp add: cur)
  have s'e': "s' < e'" using Cons.prems(4) [of x] by (simp add: x)
  have val: "\<And>y. y \<in> set xs \<Longrightarrow> fst y < snd y" using Cons.prems(4) by simp
  show ?case
  proof (cases "s' \<le> e")
    case True
    let ?c = "(s, max e e')"
    have ih: "chain (fst ?c) (spec_merge_from ?c xs) \<and>
       (\<forall>q. covered (spec_merge_from ?c xs) q = covered (?c # xs) q) \<and>
       (\<forall>m \<in> set (spec_merge_from ?c xs). \<exists>x \<in> set (?c # xs). snd m = snd x)"
    proof (rule Cons.IH [OF srt])
      fix y assume "y \<in> set xs"
      then show "fst ?c \<le> fst y" using Cons.prems(2) [of y] by (simp add: cur)
    next
      show "fst ?c < snd ?c" using se by simp
    next
      fix y assume "y \<in> set xs" then show "fst y < snd y" by (rule val)
    qed
    have cov: "covered (?c # xs) q = covered (cur # x # xs) q" for q
      using True ss' se s'e' by (auto simp: covered_Cons cur x)
    have ends: "\<exists>y \<in> set (cur # x # xs). snd m = snd y"
      if "\<exists>y \<in> set (?c # xs). snd m = snd y" for m
    proof -
      from that consider "snd m = max e e'" | "\<exists>y \<in> set xs. snd m = snd y" by auto
      then show ?thesis
      proof cases
        case 1
        then have "snd m = e \<or> snd m = e'" by (simp add: max_def split: if_splits)
        then show ?thesis by (auto simp: cur x)
      next
        case 2
        then show ?thesis by auto
      qed
    qed
    have e3: "\<forall>m \<in> set (spec_merge_from ?c xs). \<exists>y \<in> set (cur # x # xs). snd m = snd y"
      using ih ends by blast
    have e1: "chain (fst cur) (spec_merge_from ?c xs)" using ih by (simp add: cur)
    have e2: "\<forall>q. covered (spec_merge_from ?c xs) q = covered (cur # x # xs) q"
      using ih cov by simp
    have eq: "spec_merge_from cur (x # xs) = spec_merge_from ?c xs"
      using True by (simp add: cur x)
    show ?thesis unfolding eq using e1 e2 e3 by blast
  next
    case False
    have ih: "chain (fst x) (spec_merge_from x xs) \<and>
       (\<forall>q. covered (spec_merge_from x xs) q = covered (x # xs) q) \<and>
       (\<forall>m \<in> set (spec_merge_from x xs). \<exists>y \<in> set (x # xs). snd m = snd y)"
    proof (rule Cons.IH [OF srt])
      fix y assume "y \<in> set xs"
      then show "fst x \<le> fst y" using Cons.prems(1) by auto
    next
      show "fst x < snd x" using s'e' by (simp add: x)
    next
      fix y assume "y \<in> set xs" then show "fst y < snd y" by (rule val)
    qed
    have ch: "chain (Suc e) (spec_merge_from x xs)"
      by (rule chain_mono [of "fst x"]) (use ih False in \<open>simp_all add: x\<close>)
    have cov: "covered (cur # spec_merge_from x xs) q = covered (cur # x # xs) q" for q
      using ih by (simp add: covered_Cons cur x)
    have eq: "spec_merge_from cur (x # xs) = cur # spec_merge_from x xs"
      using False by (simp add: cur x)
    have e1: "chain (fst cur) (cur # spec_merge_from x xs)" using ch se by (simp add: cur)
    have e3: "\<forall>m \<in> set (cur # spec_merge_from x xs). \<exists>y \<in> set (cur # x # xs). snd m = snd y"
      using ih by auto
    show ?thesis unfolding eq using e1 cov e3 by blast
  qed
qed

lemma spec_merge_props:
  assumes "sorted (map fst xs)" and "\<And>x. x \<in> set xs \<Longrightarrow> fst x < snd x"
  shows "chain 0 (spec_merge xs)"
    and "covered (spec_merge xs) q = covered xs q"
    and "m \<in> set (spec_merge xs) \<Longrightarrow> \<exists>x \<in> set xs. snd m = snd x"
proof -
  have all: "chain 0 (spec_merge xs) \<and> (\<forall>q. covered (spec_merge xs) q = covered xs q) \<and>
     (\<forall>m \<in> set (spec_merge xs). \<exists>x \<in> set xs. snd m = snd x)"
  proof (cases xs)
    case Nil
    then show ?thesis by (simp add: covered_def)
  next
    case (Cons x rest)
    have "chain (fst x) (spec_merge_from x rest) \<and>
       (\<forall>q. covered (spec_merge_from x rest) q = covered (x # rest) q) \<and>
       (\<forall>m \<in> set (spec_merge_from x rest). \<exists>y \<in> set (x # rest). snd m = snd y)"
    proof (rule spec_merge_from_props)
      show "sorted (map fst rest)" using assms(1) Cons by simp
    next
      fix y assume "y \<in> set rest" then show "fst x \<le> fst y" using assms(1) Cons by auto
    next
      show "fst x < snd x" using assms(2) Cons by simp
    next
      fix y assume "y \<in> set rest" then show "fst y < snd y" using assms(2) Cons by simp
    qed
    moreover have "chain 0 ms" if "chain (fst x) ms" for ms
      using that by (rule chain_mono) simp
    ultimately show ?thesis by (simp add: Cons)
  qed
  show "chain 0 (spec_merge xs)" using all by simp
  show "covered (spec_merge xs) q = covered xs q" using all by simp
  show "m \<in> set (spec_merge xs) \<Longrightarrow> \<exists>x \<in> set xs. snd m = snd x" using all by simp
qed

lemma covered_set: "set xs = set ys \<Longrightarrow> covered xs = covered ys"
  by (simp add: covered_def fun_eq_iff)

lemma mask_spans_render:
  assumes "valid_spans text spans"
  shows "mask_spans text spans = render (covered spans) 0 False text"
proof -
  let ?xs = "sort_key fst spans"
  have srt: "sorted (map fst ?xs)" by simp
  have val: "\<And>x. x \<in> set ?xs \<Longrightarrow> fst x < snd x"
    using assms by (auto simp: valid_spans_def)
  have ch: "chain 0 (spec_merge ?xs)" by (rule spec_merge_props(1) [OF srt val])
  have cov: "covered (spec_merge ?xs) = covered spans"
    using spec_merge_props(2) [OF srt val] covered_set [of ?xs spans] by (simp add: fun_eq_iff)
  have bnd: "e \<le> length text" if "(s, e) \<in> set (spec_merge ?xs)" for s e
  proof -
    from spec_merge_props(3) [OF srt val that] obtain x where "x \<in> set ?xs" "e = snd x"
      by auto
    then show ?thesis using assms by (auto simp: valid_spans_def)
  qed
  have "rebuild text 0 (spec_merge ?xs) = render (covered (spec_merge ?xs)) 0 False (drop 0 text)"
    by (rule rebuild_render [OF ch bnd])
  then show ?thesis by (simp add: mask_spans_rebuild cov)
qed


lemma spec_merge_from_nonempty: "spec_merge_from cur xs \<noteq> []"
  by (induction xs arbitrary: cur) auto

lemma separated_merge_from:
  "separated (spec_merge_from cur xs) \<and> fst (hd (spec_merge_from cur xs)) = fst cur"
proof (induction xs arbitrary: cur)
  case Nil
  show ?case by simp
next
  case (Cons x xs)
  show ?case
  proof (cases "fst x \<le> snd cur")
    case True
    then show ?thesis using Cons [of "(fst cur, max (snd cur) (snd x))"] by simp
  next
    case False
    obtain m ms where r: "spec_merge_from x xs = m # ms"
      using spec_merge_from_nonempty [of x xs] by (cases "spec_merge_from x xs") auto
    have "separated (m # ms) \<and> fst m = fst x" using Cons [of x] by (simp add: r)
    then show ?thesis using False by (simp add: r)
  qed
qed

lemma separated_spec_merge: "separated (spec_merge xs)"
  by (cases xs) (simp_all add: separated_merge_from)

lemma collect_accessors:
  "candidates nlp text = ents (nlp text) @ matched_spans (nlp text) text patterns"
  "entity_report nlp text =
     map (entity_of text) (reported_ents (nlp text) @ matched_spans (nlp text) text patterns)"
  "raw_spans nlp text =
     map span_offsets (reported_ents (nlp text) @ matched_spans (nlp text) text patterns)"
  "masked_text nlp text = mask_spans text (raw_spans nlp text)"
  "accepted_ents nlp text = filter_spans (candidates nlp text)"
  by (simp_all add: candidates_def entity_report_def raw_spans_def masked_text_def
        accepted_ents_def mask_entities_and_contacts_def collect_eq Let_def)

lemma mask_spans_Nil: "mask_spans text [] = text"
  by (simp add: mask_spans_def slice_from_def)

lemma example_matched:
  "matched_spans example_doc ''a@b.co ok'' patterns =
     [\<lparr>tok_start = 0, tok_end = 1, start_char = 0, end_char = 6, span_label = ''EMAIL''\<rparr>]"
  by code_simp

lemma example_reported:
  "reported_ents example_doc =
     [\<lparr>tok_start = 0, tok_end = 1, start_char = 0, end_char = 6, span_label = ''PER''\<rparr>]"
  by (simp add: reported_ents_def example_doc_def ner_labels_def)

lemma empty_finditer:
  "finditer cpf_pattern [] = []"
  "finditer cnpj_pattern [] = []"
  "finditer telefone_pattern [] = []"
  "finditer email_pattern [] = []"
  by code_simp+

lemma hello_finditer:
  "finditer cpf_pattern ''Hello world'' = []"
  "finditer cnpj_pattern ''Hello world'' = []"
  "finditer telefone_pattern ''Hello world'' = []"
  "finditer email_pattern ''Hello world'' = []"
  by code_simp+

lemma matched_spans_empty_text: "matched_spans d [] patterns = []"
  by (simp add: matched_spans_def patterns_def kept_matches_def List.map_filter_simps
        empty_finditer)

lemma hello_matched: "matched_spans d ''Hello world'' patterns = []"
  by (simp add: matched_spans_def patterns_def kept_matches_def List.map_filter_simps
        hello_finditer)

section \<open>The kept matches\<close>

lemma char_span_Some:
  "char_span d s e lbl = Some sp \<Longrightarrow> start_char sp = s \<and> end_char sp = e \<and> span_label sp = lbl"
  by (auto simp: char_span_def split: option.splits)

lemma kept_matches_offsets:
  "map span_offsets (kept_matches d lbl ms) = filter (mappable d lbl) ms"
proof (induction ms)
  case Nil
  show ?case by (simp add: kept_matches_def List.map_filter_simps)
next
  case (Cons m ms)
  obtain s e where m: "m = (s, e)" by (cases m)
  show ?case
  proof (cases "char_span d s e lbl")
    case None
    then show ?thesis
      using Cons by (simp add: kept_matches_def List.map_filter_simps m mappable_def)
  next
    case (Some sp)
    then show ?thesis
      using Cons char_span_Some [OF Some]
      by (simp add: kept_matches_def List.map_filter_simps m mappable_def span_offsets_def)
  qed
qed

lemma kept_matches_entities:
  "map (entity_of text) (kept_matches d lbl ms) =
     map (\<lambda>m. \<lparr>etext = slice text (fst m) (snd m), elabel = lbl\<rparr>) (filter (mappable d lbl) ms)"
proof (induction ms)
  case Nil
  show ?case by (simp add: kept_matches_def List.map_filter_simps)
next
  case (Cons m ms)
  obtain s e where m: "m = (s, e)" by (cases m)
  show ?case
  proof (cases "char_span d s e lbl")
    case None
    then show ?thesis
      using Cons by (simp add: kept_matches_def List.map_filter_simps m mappable_def)
  next
    case (Some sp)
    then show ?thesis
      using Cons char_span_Some [OF Some]
      by (simp add: kept_matches_def List.map_filter_simps m mappable_def entity_of_def
            span_text_def)
  qed
qed

lemma kept_matches_labels: "sp \<in> set (kept_matches d lbl ms) \<Longrightarrow> span_label sp = lbl"
  by (auto simp: kept_matches_def List.map_filter_def dest: char_span_Some)

lemma matched_labels:
  "sp \<in> set (matched_spans d text patterns) \<Longrightarrow>
   span_label sp \<in> {''CPF'', ''CNPJ'', ''TELEFONE'', ''EMAIL''}"
  by (auto simp: matched_spans_def patterns_def dest: kept_matches_labels)

section \<open>The order of the matches\<close>

lemma re_match_bounds:
  "re_match p t i = Some e \<Longrightarrow> i \<le> e"
proof (induction p t i arbitrary: e rule: re_match.induct)
  case (1 t i)
  then show ?case by simp
next
  case (2 rs t i)
  then show ?case by (simp split: if_splits)
next
  case (3 c rs t i)
  then show ?case by (fastforce split: if_splits)
next
  case (4 c lo hi rs t i)
  let ?cond = "hi \<noteq> Some 0 \<and> i < length t \<and> cmatch c (t ! i)"
  have unf: "re_match (Rep c lo hi # rs) t i =
     (if ?cond then
        (case re_match (Rep c (lo - 1) (hi_dec hi) # rs) t (Suc i) of
           Some e \<Rightarrow> Some e
         | None \<Rightarrow> if lo = 0 then re_match rs t i else None)
      else if lo = 0 then re_match rs t i else None)"
    by (rule re_match.simps(4))
  show ?case
  proof (cases ?cond)
    case True
    show ?thesis
    proof (cases "re_match (Rep c (lo - 1) (hi_dec hi) # rs) t (Suc i)")
      case None
      have "lo = 0 \<and> re_match rs t i = Some e"
        using "4.prems" True None unfolding unf by (simp split: if_splits)
      then show ?thesis using "4.IH"(2) [OF True None] by simp
    next
      case (Some e')
      have "e' = e" using "4.prems" True Some unfolding unf by simp
      then show ?thesis using "4.IH"(1) [OF True Some] by simp
    qed
  next
    case False
    have "lo = 0 \<and> re_match rs t i = Some e"
      using "4.prems" False unfolding unf by (simp split: if_splits)
    then show ?thesis using "4.IH"(3) [OF False] by simp
  qed
next
  case (5 g rs t i)
  show ?case
  proof (cases "re_match (g @ rs) t i")
    case None
    with 5 show ?thesis by simp
  next
    case (Some e')
    with 5 show ?thesis by simp
  qed
qed

lemma scan_sorted:
  "sorted_wrt (\<lambda>a b. fst a < fst b \<and> snd a \<le> fst b) (scan p t pos) \<and>
   (\<forall>m \<in> set (scan p t pos). pos \<le> fst m \<and> re_match p t (fst m) = Some (snd m))"
proof (induction p t pos rule: scan.induct)
  case (1 p t pos)
  show ?case
  proof (cases "length t < pos")
    case True
    then show ?thesis by (subst scan.simps, subst (2) scan.simps) simp
  next
    case False
    show ?thesis
    proof (cases "re_match p t pos")
      case None
      from 1(1) [OF False None] show ?thesis
        using False None by (subst scan.simps, subst (2) scan.simps) fastforce
    next
      case (Some e)
      have pe: "pos \<le> e" using re_match_bounds [OF Some] .
      from 1(2) [OF False Some] show ?thesis
        using False Some pe by (subst scan.simps, subst (2) scan.simps) fastforce
    qed
  qed
qed

lemma finditer_sorted: "sorted_wrt (<) (map fst (finditer p t))"
proof -
  have "sorted_wrt (\<lambda>a b. fst a < fst b \<and> snd a \<le> fst b) (scan p t 0)"
    using scan_sorted [of p t 0] by simp
  then have "sorted_wrt (\<lambda>a b. fst a < fst b) (scan p t 0)"
    by (rule sorted_wrt_mono_rel [rotated]) simp
  then show ?thesis by (simp add: finditer_def sorted_wrt_map)
qed

lemma kept_matches_sorted:
  "sorted_wrt (<) (map fst ms) \<Longrightarrow> sorted_wrt (<) (map start_char (kept_matches d lbl ms))"
proof -
  assume s: "sorted_wrt (<) (map fst ms)"
  have "map start_char (kept_matches d lbl ms) = map fst (map span_offsets (kept_matches d lbl ms))"
    by (simp add: span_offsets_def comp_def)
  also have "\<dots> = map fst (filter (mappable d lbl) ms)" by (simp only: kept_matches_offsets)
  finally have eq: "map start_char (kept_matches d lbl ms) = map fst (filter (mappable d lbl) ms)" .
  have "sorted_wrt (\<lambda>a b. fst a < fst b) ms" using s by (simp add: sorted_wrt_map)
  then have "sorted_wrt (\<lambda>a b. fst a < fst b) (filter (mappable d lbl) ms)"
    by (rule sorted_wrt_filter)
  then show ?thesis by (simp add: eq sorted_wrt_map)
qed

section \<open>The overlap filter\<close>

lemma key_rev: "(order_key a \<le> order_key b) = (get_sort_key b \<le> get_sort_key a)"
  by (auto simp: order_key_def get_sort_key_def less_eq_prod_def)

lemma key_eq: "(order_key a = order_key b) = (get_sort_key a = get_sort_key b)"
  by (auto simp: order_key_def get_sort_key_def)

lemma sorted_reverse_order_key: "sorted_reverse get_sort_key xs = sort_key order_key xs"
proof (rule properties_for_sort_key [symmetric])
  show "mset (sorted_reverse get_sort_key xs) = mset xs"
    by (simp add: sorted_reverse_def)
next
  fix k
  have "filter (\<lambda>x. order_key k = order_key x) (sorted_reverse get_sort_key xs) =
        rev (filter (\<lambda>y. get_sort_key y = get_sort_key k) (sort_key get_sort_key (rev xs)))"
    by (simp add: sorted_reverse_def rev_filter key_eq eq_commute)
  also have "\<dots> = rev (filter (\<lambda>y. get_sort_key y = get_sort_key k) (rev xs))"
    by (simp only: sort_key_stable)
  also have "\<dots> = filter (\<lambda>x. order_key k = order_key x) xs"
    by (simp add: rev_filter key_eq eq_commute)
  finally show "filter (\<lambda>x. order_key k = order_key x) (sorted_reverse get_sort_key xs) =
        filter (\<lambda>x. order_key k = order_key x) xs" .
next
  have "sorted_wrt (\<lambda>x y. get_sort_key x \<le> get_sort_key y) (sort_key get_sort_key (rev xs))"
    using sorted_sort_key [of get_sort_key "rev xs"] by (simp only: sorted_map)
  then show "sorted (map order_key (sorted_reverse get_sort_key xs))"
    by (simp add: sorted_reverse_def sorted_map sorted_wrt_rev key_rev)
qed

lemma sorted_reverse_len:
  "sorted_wrt (\<lambda>x y. tok_len y \<le> tok_len x) (sorted_reverse get_sort_key xs)"
proof -
  have "sorted_wrt (\<lambda>x y. order_key x \<le> order_key y) (sort_key order_key xs)"
    using sorted_sort_key [of order_key xs] by (simp only: sorted_map)
  then have "sorted_wrt (\<lambda>x y. tok_len y \<le> tok_len x) (sort_key order_key xs)"
    by (rule sorted_wrt_mono_rel [rotated])
       (auto simp: order_key_def tok_len_def less_eq_prod_def)
  then show ?thesis by (simp add: sorted_reverse_order_key)
qed

lemma endpoint_check:
  assumes "tok_start c < tok_end c"
    and "\<forall>a \<in> set accepted. tok_start a < tok_end a \<and> tok_len c \<le> tok_len a"
  shows "(int (tok_start c) \<notin> seen_of accepted \<and> int (tok_end c) - 1 \<notin> seen_of accepted) =
         (\<forall>a \<in> set accepted. \<not> tok_overlap a c)"
proof -
  have one: "(int (tok_start c) \<in> {int (tok_start a) ..< int (tok_end a)} \<or>
              int (tok_end c) - 1 \<in> {int (tok_start a) ..< int (tok_end a)}) = tok_overlap a c"
    if "a \<in> set accepted" for a
  proof -
    have "tok_start a < tok_end a" "tok_len c \<le> tok_len a" using assms(2) that by auto
    then show ?thesis using assms(1) by (auto simp: tok_overlap_def tok_len_def)
  qed
  show ?thesis using one by (auto simp: seen_of_def)
qed

lemma filter_loop_greedy:
  "\<forall>s \<in> set (accepted @ cs). tok_start s < tok_end s \<Longrightarrow>
   sorted_wrt (\<lambda>x y. tok_len y \<le> tok_len x) (accepted @ cs) \<Longrightarrow>
   filter_loop cs accepted (seen_of accepted) = greedy_accept cs accepted"
proof (induction cs arbitrary: accepted)
  case Nil
  show ?case by simp
next
  case (Cons c cs)
  have c: "tok_start c < tok_end c" using Cons.prems(1) by simp
  have acc: "\<forall>a \<in> set accepted. tok_start a < tok_end a \<and> tok_len c \<le> tok_len a"
    using Cons.prems by (auto simp: sorted_wrt_append)
  have chk: "(int (tok_start c) \<notin> seen_of accepted \<and> int (tok_end c) - 1 \<notin> seen_of accepted) =
         (\<forall>a \<in> set accepted. \<not> tok_overlap a c)"
    by (rule endpoint_check [OF c acc])
  have seen: "seen_of accepted \<union> {int (tok_start c) ..< int (tok_end c)} = seen_of (accepted @ [c])"
    by (auto simp: seen_of_def)
  have ih1: "filter_loop cs (accepted @ [c]) (seen_of (accepted @ [c])) =
             greedy_accept cs (accepted @ [c])"
    by (rule Cons.IH) (use Cons.prems in \<open>simp_all\<close>)
  have ih2: "filter_loop cs accepted (seen_of accepted) = greedy_accept cs accepted"
    by (rule Cons.IH) (use Cons.prems in \<open>auto simp: sorted_wrt_append\<close>)
  show ?case
  proof (cases "\<forall>a \<in> set accepted. \<not> tok_overlap a c")
    case True
    then show ?thesis using chk ih1 seen by simp
  next
    case False
    then show ?thesis using chk ih2 by auto
  qed
qed

lemma filter_spans_greedy:
  assumes "\<forall>s \<in> set cands. tok_start s < tok_end s"
  shows "filter_spans cands =
         sort_key tok_start (greedy_accept (sort_key order_key cands) [])"
proof -
  let ?xs = "sorted_reverse get_sort_key cands"
  have set: "set ?xs = set cands" by (simp add: sorted_reverse_def)
  have "filter_loop ?xs [] (seen_of []) = greedy_accept ?xs []"
    by (rule filter_loop_greedy) (use assms set sorted_reverse_len in \<open>simp_all\<close>)
  then show ?thesis by (simp add: filter_spans_def seen_of_def sorted_reverse_order_key)
qed

lemma filter_loop_subset: "set (filter_loop cs accepted seen) \<subseteq> set accepted \<union> set cs"
proof (induction cs arbitrary: accepted seen)
  case Nil
  show ?case by simp
next
  case (Cons c cs)
  have a: "set (filter_loop cs (accepted @ [c]) s) \<subseteq> set accepted \<union> set (c # cs)" for s
    using Cons [of "accepted @ [c]" s] by auto
  have b: "set (filter_loop cs accepted seen) \<subseteq> set accepted \<union> set (c # cs)"
    using Cons [of accepted seen] by auto
  show ?case using a b by simp
qed

lemma filter_spans_subset: "set (filter_spans cands) \<subseteq> set cands"
  using filter_loop_subset [of "sorted_reverse get_sort_key cands" "[]" "{}"]
  by (simp add: filter_spans_def sorted_reverse_def)

lemma tok_overlap_sym: "tok_overlap a b = tok_overlap b a"
  by (simp add: tok_overlap_def max.commute min.commute)

lemma greedy_accept_disjoint:
  "distinct accepted \<Longrightarrow>
   (\<forall>a \<in> set accepted. \<forall>b \<in> set accepted. a \<noteq> b \<longrightarrow> \<not> tok_overlap a b) \<Longrightarrow>
   (\<forall>s \<in> set cs. tok_start s < tok_end s) \<Longrightarrow>
   distinct (greedy_accept cs accepted) \<and>
   (\<forall>a \<in> set (greedy_accept cs accepted). \<forall>b \<in> set (greedy_accept cs accepted).
      a \<noteq> b \<longrightarrow> \<not> tok_overlap a b)"
proof (induction cs arbitrary: accepted)
  case Nil
  then show ?case by simp
next
  case (Cons c cs)
  have rest: "\<forall>s \<in> set cs. tok_start s < tok_end s" using Cons.prems(3) by simp
  show ?case
  proof (cases "\<forall>a \<in> set accepted. \<not> tok_overlap a c")
    case True
    have self: "tok_overlap c c" using Cons.prems(3) by (simp add: tok_overlap_def)
    have notin: "c \<notin> set accepted" using True self by blast
    have d: "distinct (accepted @ [c])" using Cons.prems(1) notin by simp
    have p: "\<forall>a \<in> set (accepted @ [c]). \<forall>b \<in> set (accepted @ [c]). a \<noteq> b \<longrightarrow> \<not> tok_overlap a b"
      using Cons.prems(2) True tok_overlap_sym by auto
    have eq: "greedy_accept (c # cs) accepted = greedy_accept cs (accepted @ [c])"
      using True by simp
    show ?thesis unfolding eq by (rule Cons.IH [OF d p rest])
  next
    case False
    have eq: "greedy_accept (c # cs) accepted = greedy_accept cs accepted"
      by (simp only: greedy_accept.simps False if_False)
    show ?thesis unfolding eq by (rule Cons.IH [OF Cons.prems(1) Cons.prems(2) rest])
  qed
qed

lemma filter_spans_disjoint:
  assumes "\<forall>s \<in> set cands. tok_start s < tok_end s"
  shows "distinct (filter_spans cands) \<and>
         (\<forall>a \<in> set (filter_spans cands). \<forall>b \<in> set (filter_spans cands).
            a \<noteq> b \<longrightarrow> \<not> tok_overlap a b)"
proof -
  have "distinct (greedy_accept (sort_key order_key cands) []) \<and>
   (\<forall>a \<in> set (greedy_accept (sort_key order_key cands) []).
      \<forall>b \<in> set (greedy_accept (sort_key order_key cands) []). a \<noteq> b \<longrightarrow> \<not> tok_overlap a b)"
    by (rule greedy_accept_disjoint) (use assms in simp_all)
  then show ?thesis by (simp add: filter_spans_greedy [OF assms])
qed

section \<open>The examples evaluated\<close>

lemma example_finditer:
  "finditer cpf_pattern ''a@b.co ok'' = []"
  "finditer cnpj_pattern ''a@b.co ok'' = []"
  "finditer telefone_pattern ''a@b.co ok'' = []"
  "finditer email_pattern ''a@b.co ok'' = [(0, 6)]"
  by code_simp+

lemma tie_finditer:
  "finditer cpf_pattern ''11 1234-5678 SP'' = []"
  "finditer cnpj_pattern ''11 1234-5678 SP'' = []"
  "finditer telefone_pattern ''11 1234-5678 SP'' = [(0, 12)]"
  "finditer email_pattern ''11 1234-5678 SP'' = []"
  by code_simp+


lemma example_ents: "ents example_doc = [per_span]"
  by (simp add: example_doc_def per_span_def)

lemma example_reported_per: "reported_ents example_doc = [per_span]"
  by (simp add: example_reported per_span_def)

lemma example_matched_email: "matched_spans example_doc ''a@b.co ok'' patterns = [email_span]"
  by (simp add: example_matched email_span_def)

lemma example_candidates: "candidates example_nlp ''a@b.co ok'' = [per_span, email_span]"
  by (simp add: collect_accessors(1) example_nlp_def example_ents example_matched_email)

lemma example_raw_spans: "raw_spans example_nlp ''a@b.co ok'' = [(0, 6), (0, 6)]"
  by (simp add: collect_accessors(3) example_nlp_def example_matched_email
        example_reported_per span_offsets_def per_span_def email_span_def)

lemma example_report:
  "entity_report example_nlp ''a@b.co ok'' =
     [\<lparr>etext = ''a@b.co'', elabel = ''PER''\<rparr>, \<lparr>etext = ''a@b.co'', elabel = ''EMAIL''\<rparr>]"
  by (simp add: collect_accessors(2) example_nlp_def example_matched_email
        example_reported_per entity_of_def span_text_def slice_def per_span_def email_span_def)

lemma example_filter: "filter_spans [per_span, email_span] = [per_span]"
  by (simp add: filter_spans_def sorted_reverse_def get_sort_key_def per_span_def email_span_def)

lemma example_accepted: "accepted_ents example_nlp ''a@b.co ok'' = [per_span]"
  by (simp add: collect_accessors(5) example_candidates example_filter)

lemma coarse_matched: "matched_spans coarse_doc ''a@b.co ok'' patterns = []"
  by (simp add: matched_spans_def patterns_def kept_matches_def List.map_filter_simps
        char_span_def coarse_doc_def example_finditer)

lemma tie_matched: "matched_spans tie_doc ''11 1234-5678 SP'' patterns = [telefone_span]"
  by (simp add: matched_spans_def patterns_def kept_matches_def List.map_filter_simps
        char_span_def tie_doc_def tie_finditer telefone_span_def)

lemma tie_candidates: "candidates tie_nlp ''11 1234-5678 SP'' = [loc_span, telefone_span]"
  by (simp add: collect_accessors(1) tie_nlp_def tie_matched) (simp add: tie_doc_def)

lemma tie_filter: "filter_spans [loc_span, telefone_span] = [telefone_span]"
  by (simp add: filter_spans_def sorted_reverse_def get_sort_key_def loc_span_def
        telefone_span_def less_eq_prod_def)

lemma tie_claimed: "claimed_reconcile [loc_span, telefone_span] = [loc_span]"
  by (simp add: claimed_reconcile_def char_len_def char_overlap_def overlap_def span_offsets_def
        loc_span_def telefone_span_def)






section \<open>The claims\<close>

text \<open>
  C1. The claim is that the entity report holds exactly one record for each accepted
  entity of the reconciliation, and that no two reported entities have overlapping
  character spans. The function does otherwise: it appends to the report while it
  collects the spans (lines 37 and 75), before \<open>filter_spans\<close> runs, and the result of
  \<open>filter_spans\<close> goes to \<open>doc.ents\<close> only (line 86). On the text
  \<open>a@b.co ok\<close>, whose address the language model tags as a person and the EMAIL
  rule matches, the report holds two records for the same characters 0 to 6, while one
  entity is accepted (also by the reconciliation as the specification words it).
\<close>

theorem report_not_reconciled:
  "entity_report example_nlp ''a@b.co ok'' =
     [\<lparr>etext = ''a@b.co'', elabel = ''PER''\<rparr>, \<lparr>etext = ''a@b.co'', elabel = ''EMAIL''\<rparr>] \<and>
   raw_spans example_nlp ''a@b.co ok'' = [(0, 6), (0, 6)] \<and>
   accepted_ents example_nlp ''a@b.co ok'' = [per_span] \<and>
   claimed_reconcile (candidates example_nlp ''a@b.co ok'') = [per_span] \<and>
   length (entity_report example_nlp ''a@b.co ok'') \<noteq>
     length (accepted_ents example_nlp ''a@b.co ok'') \<and>
   \<not> disjoint_spans (raw_spans example_nlp ''a@b.co ok'')"
proof -
  have c: "claimed_reconcile [per_span, email_span] = [per_span]"
    by (simp add: claimed_reconcile_def char_len_def char_overlap_def overlap_def
          span_offsets_def per_span_def email_span_def)
  have d: "overlap (0, 6) (0, 6)" by (simp add: overlap_def)
  show ?thesis
    by (simp add: example_report example_raw_spans example_accepted example_candidates c d)
qed

text \<open>
  C1, as the function has it. The report holds exactly one record for each collected raw
  span, in the order of collection and before any reconciliation: the raw spans and the
  report are the offsets and the records of one and the same list of spans (the
  entities of the extractor that carry one of the four labels, then the kept matches),
  and the text of each record is the slice of the input at the offsets of its raw span.
  Overlap is excluded among the accepted entities of the returned document, not in the
  report: when every candidate has at least one token, the accepted entities are
  distinct and no two of them share a token.
\<close>

theorem report_per_raw_span:
  "entity_report nlp text =
     map (entity_of text) (reported_ents (nlp text) @ matched_spans (nlp text) text patterns) \<and>
   raw_spans nlp text =
     map span_offsets (reported_ents (nlp text) @ matched_spans (nlp text) text patterns) \<and>
   map etext (entity_report nlp text) = map (\<lambda>(s, e). slice text s e) (raw_spans nlp text) \<and>
   length (entity_report nlp text) = length (raw_spans nlp text) \<and>
   ((\<forall>c \<in> set (candidates nlp text). tok_start c < tok_end c) \<longrightarrow>
      distinct (accepted_ents nlp text) \<and>
      (\<forall>a \<in> set (accepted_ents nlp text). \<forall>b \<in> set (accepted_ents nlp text).
         a \<noteq> b \<longrightarrow> \<not> tok_overlap a b))"
proof -
  have a: "map etext (entity_report nlp text) =
           map (\<lambda>(s, e). slice text s e) (raw_spans nlp text)"
    by (simp add: collect_accessors(2,3) entity_of_def span_text_def span_offsets_def comp_def)
  have b: "length (entity_report nlp text) = length (raw_spans nlp text)"
    by (simp add: collect_accessors(2,3))
  have c: "distinct (accepted_ents nlp text) \<and>
      (\<forall>a \<in> set (accepted_ents nlp text). \<forall>b \<in> set (accepted_ents nlp text).
         a \<noteq> b \<longrightarrow> \<not> tok_overlap a b)"
    if "\<forall>c \<in> set (candidates nlp text). tok_start c < tok_end c"
    unfolding collect_accessors(5) by (rule filter_spans_disjoint [OF that])
  show ?thesis using a b c collect_accessors(2,3) by blast
qed

theorem report_per_raw_span_witness:
  "tok_start per_span < tok_end per_span \<and> tok_start email_span < tok_end email_span \<and>
   candidates example_nlp ''a@b.co ok'' = [per_span, email_span] \<and>
   raw_spans example_nlp ''a@b.co ok'' = [(0, 6), (0, 6)] \<and>
   map etext (entity_report example_nlp ''a@b.co ok'') = [''a@b.co'', ''a@b.co''] \<and>
   length (entity_report example_nlp ''a@b.co ok'') = 2 \<and>
   accepted_ents example_nlp ''a@b.co ok'' = [per_span] \<and>
   distinct (accepted_ents example_nlp ''a@b.co ok'')"
proof -
  have h: "\<forall>c \<in> set (candidates example_nlp ''a@b.co ok''). tok_start c < tok_end c"
    by (simp add: example_candidates per_span_def email_span_def)
  have t: "map etext (entity_report example_nlp ''a@b.co ok'') =
           map (\<lambda>(s, e). slice ''a@b.co ok'' s e) (raw_spans example_nlp ''a@b.co ok'')"
    and n: "length (entity_report example_nlp ''a@b.co ok'') =
            length (raw_spans example_nlp ''a@b.co ok'')"
    and d: "distinct (accepted_ents example_nlp ''a@b.co ok'')"
    using report_per_raw_span [of example_nlp "''a@b.co ok''"] h by blast+
  have p: "tok_start per_span < tok_end per_span \<and> tok_start email_span < tok_end email_span"
    by (simp add: per_span_def email_span_def)
  show ?thesis
    using t n d p
    by (simp add: example_candidates example_raw_spans example_accepted slice_def)
qed

text \<open>
  C2. Coverage. Whenever every collected raw span satisfies
  \<open>0 \<le> start < end \<le> len(text)\<close>, the masked text is the text with every position
  inside a raw span replaced by mask characters (one token for each maximal run of such
  positions) and every position outside all raw spans kept, unchanged and in order. The
  raw spans are those of the extractor and of the kept matches, before and regardless of
  the reconciliation.
\<close>

theorem coverage:
  "valid_spans text (raw_spans nlp text) \<Longrightarrow>
   masked_text nlp text = render (covered (raw_spans nlp text)) 0 False text"
  by (simp add: collect_accessors(4) mask_spans_render)

theorem coverage_witness:
  "valid_spans ''a@b.co ok'' (raw_spans example_nlp ''a@b.co ok'') \<and>
   raw_spans example_nlp ''a@b.co ok'' = [(0, 6), (0, 6)] \<and>
   masked_text example_nlp ''a@b.co ok'' = ''******** ok'' \<and>
   render (covered (raw_spans example_nlp ''a@b.co ok'')) 0 False ''a@b.co ok'' = ''******** ok''"
proof -
  have r: "raw_spans example_nlp ''a@b.co ok'' = [(0, 6), (0, 6)]"
    by (simp add: collect_accessors(3) example_nlp_def example_reported example_matched
          span_offsets_def)
  have v: "valid_spans ''a@b.co ok'' (raw_spans example_nlp ''a@b.co ok'')"
    by (simp add: r valid_spans_def)
  have m: "render (covered (raw_spans example_nlp ''a@b.co ok'')) 0 False ''a@b.co ok'' =
     ''******** ok''"
    by (simp add: r covered_def mask_def)
  show ?thesis using coverage [OF v] v r m by simp
qed

text \<open>
  C3. The merge pass on the raw spans sorted by start is the merge of the
  specification (a next interval with \<open>start \<le> current.end\<close> is merged into the
  current one, whose end becomes the larger of the two ends); the masked text replaces each
  merged interval by exactly one token of eight characters; consecutive merged intervals
  are never adjacent; in particular two adjacent raw spans \<open>(a, b)\<close> and
  \<open>(b, c)\<close> give a single token.
\<close>

theorem merge_pass:
  "merge_loop (sort_key fst spans) [] = spec_merge (sort_key fst spans) \<and>
   mask_spans text spans = rebuild text 0 (merge_loop (sort_key fst spans) []) \<and>
   mask = ''********'' \<and> length mask = 8 \<and>
   separated (merge_loop (sort_key fst spans) []) \<and>
   (a \<le> b \<longrightarrow>
      merge_loop (sort_key fst [(a, b), (b, c)]) [] = [(a, max b c)] \<and>
      mask_spans text [(a, b), (b, c)] = slice text 0 a @ mask @ slice_from text (max b c))"
proof -
  have adj: "sort_key fst [(a, b), (b, c)] = [(a, b), (b, c)]" if "a \<le> b"
    using that by simp
  have m: "spec_merge [(a, b), (b, c)] = [(a, max b c)]" by simp
  show ?thesis
    by (simp add: merge_loop_spec mask_spans_rebuild separated_spec_merge mask_def adj
          del: sort_key_simps spec_merge.simps)
       (simp add: mask_def)
qed

theorem merge_pass_witness:
  "(2::nat) \<le> 5 \<and>
   merge_loop (sort_key fst [(2, 5), (5, 7)]) [] = [(2, 7)] \<and>
   mask_spans ''ab123456cd'' [(2, 5), (5, 7)] = ''ab********6cd''"
proof -
  have h: "(2::nat) \<le> 5" by simp
  have s: "slice ''ab123456cd'' 0 2 @ mask @ slice_from ''ab123456cd'' (max 5 7) =
           ''ab********6cd''"
    by (simp add: slice_def slice_from_def mask_def)
  show ?thesis
    using merge_pass [of "[]" "''ab123456cd''" 2 5 7] h s by simp
qed

text \<open>
  C4. When no span has been collected, the masked text is the input text and the entity
  report is empty; the function has no failing branch. For the empty text the four rules
  match nothing, so when the extractor keeps its contract (every entity it returns lies
  inside the text, \<open>0 \<le> start < end \<le> len(text)\<close>, which no entity can for the empty
  text), no span is collected and both the report and the masked text are empty.
\<close>

theorem no_spans:
  "(raw_spans nlp text = [] \<longrightarrow> masked_text nlp text = text \<and> entity_report nlp text = []) \<and>
   (valid_spans [] (map span_offsets (ents (nlp []))) \<longrightarrow>
      raw_spans nlp [] = [] \<and> masked_text nlp [] = [] \<and> entity_report nlp [] = [])"
proof -
  have a: "masked_text nlp text = text \<and> entity_report nlp text = []"
    if "raw_spans nlp text = []"
    using that by (simp add: collect_accessors(2,3,4) mask_spans_Nil)
  have b: "raw_spans nlp [] = [] \<and> masked_text nlp [] = [] \<and> entity_report nlp [] = []"
    if v: "valid_spans [] (map span_offsets (ents (nlp [])))"
  proof -
    have "ents (nlp []) = []"
    proof (cases "ents (nlp [])")
      case Nil
      then show ?thesis .
    next
      case (Cons e es)
      then show ?thesis using v by (auto simp: valid_spans_def span_offsets_def)
    qed
    then have "reported_ents (nlp []) = []" by (simp add: reported_ents_def)
    then show ?thesis
      by (simp add: collect_accessors(2,3,4) matched_spans_empty_text mask_spans_Nil)
  qed
  show ?thesis using a b by blast
qed

theorem no_spans_witness:
  "raw_spans plain_nlp ''Hello world'' = [] \<and>
   masked_text plain_nlp ''Hello world'' = ''Hello world'' \<and>
   entity_report plain_nlp ''Hello world'' = [] \<and>
   valid_spans [] (map span_offsets (ents (plain_nlp []))) \<and>
   raw_spans plain_nlp [] = [] \<and> masked_text plain_nlp [] = [] \<and>
   entity_report plain_nlp [] = []"
proof -
  have h: "raw_spans plain_nlp ''Hello world'' = []"
    by (simp add: collect_accessors(3) hello_matched reported_ents_def plain_nlp_def
          plain_doc_def)
  have v: "valid_spans [] (map span_offsets (ents (plain_nlp [])))"
    by (simp add: valid_spans_def plain_nlp_def)
  show ?thesis
    using no_spans [of plain_nlp "''Hello world''"] h v by simp
qed

text \<open>
  C5. A match of a rule whose offsets \<open>char_span\<close> cannot map onto a span (the
  conversion returns \<open>None\<close>) adds nothing to the raw spans and nothing to the
  report; a match that it maps adds its offsets to the raw spans and one record, with the
  matched text and the label of the rule, to the report. So, after the entities of the
  extractor, both lists hold exactly the mappable matches, rule after rule. No branch of
  the function fails on an unmapped match.
\<close>

theorem unmapped_matches_dropped:
  "raw_spans nlp text =
     map span_offsets (reported_ents (nlp text)) @
     concat (map (\<lambda>item. filter (mappable (nlp text) (label item))
                    (finditer (pattern item) text)) patterns) \<and>
   entity_report nlp text =
     map (entity_of text) (reported_ents (nlp text)) @
     concat (map (\<lambda>item. map (\<lambda>m. \<lparr>etext = slice text (fst m) (snd m), elabel = label item\<rparr>)
                    (filter (mappable (nlp text) (label item))
                       (finditer (pattern item) text))) patterns)"
  by (simp add: collect_accessors(2,3) matched_spans_def map_concat comp_def
        kept_matches_offsets kept_matches_entities)

theorem unmapped_matches_dropped_witness:
  "finditer email_pattern ''a@b.co ok'' = [(0, 6)] \<and>
   \<not> mappable coarse_doc ''EMAIL'' (0, 6) \<and>
   raw_spans coarse_nlp ''a@b.co ok'' = [] \<and>
   entity_report coarse_nlp ''a@b.co ok'' = [] \<and>
   mappable example_doc ''EMAIL'' (0, 6) \<and>
   raw_spans example_nlp ''a@b.co ok'' = [(0, 6), (0, 6)] \<and>
   entity_report example_nlp ''a@b.co ok'' =
     [\<lparr>etext = ''a@b.co'', elabel = ''PER''\<rparr>, \<lparr>etext = ''a@b.co'', elabel = ''EMAIL''\<rparr>]"
proof -
  have m1: "\<not> mappable coarse_doc ''EMAIL'' (0, 6)"
    by (simp add: mappable_def char_span_def coarse_doc_def)
  have m2: "mappable example_doc ''EMAIL'' (0, 6)"
    by (simp add: mappable_def char_span_def example_doc_def)
  have r1: "reported_ents coarse_doc = []" by (simp add: reported_ents_def coarse_doc_def)
  show ?thesis
    using unmapped_matches_dropped [of coarse_nlp "''a@b.co ok''"]
      unmapped_matches_dropped [of example_nlp "''a@b.co ok''"] m1 m2 r1
    by (simp add: coarse_nlp_def example_nlp_def patterns_def example_finditer
          example_reported_per entity_of_def span_text_def span_offsets_def slice_def
          per_span_def)
qed

text \<open>
  C6. The claim is that the reconciliation takes the candidates longest first, those of
  equal length in their order of insertion, and accepts a candidate exactly when its
  characters overlap those of no candidate accepted before. \<open>filter_spans\<close> breaks a
  tie differently: its sort key is \<open>(end - start, -start)\<close>, so of two candidates of
  equal length the one that starts earlier in the text comes first, whatever the order of
  insertion. On the text \<open>11 1234-5678 SP\<close> the location of the extractor (tokens 1
  to 2) is inserted before the match of the TELEFONE rule (tokens 0 to 1); both have two
  tokens and twelve characters and they overlap. The claimed rule accepts the location;
  the function accepts the telephone number.
\<close>

theorem reconcile_tie_by_start:
  "candidates tie_nlp ''11 1234-5678 SP'' = [loc_span, telefone_span] \<and>
   char_len loc_span = char_len telefone_span \<and>
   tok_len loc_span = tok_len telefone_span \<and>
   char_overlap loc_span telefone_span \<and>
   claimed_reconcile (candidates tie_nlp ''11 1234-5678 SP'') = [loc_span] \<and>
   accepted_ents tie_nlp ''11 1234-5678 SP'' = [telefone_span] \<and>
   accepted_ents tie_nlp ''11 1234-5678 SP'' \<noteq>
     claimed_reconcile (candidates tie_nlp ''11 1234-5678 SP'')"
proof -
  have l: "char_len loc_span = char_len telefone_span \<and>
           tok_len loc_span = tok_len telefone_span \<and> char_overlap loc_span telefone_span"
    by (simp add: char_len_def tok_len_def char_overlap_def overlap_def span_offsets_def
          loc_span_def telefone_span_def)
  have n: "telefone_span \<noteq> loc_span" by (simp add: loc_span_def telefone_span_def)
  show ?thesis
    by (simp add: collect_accessors(5) tie_candidates tie_filter tie_claimed l n)
qed

text \<open>
  C6, as the function has it. The reconciliation takes the candidates in descending order
  of their length in tokens, candidates of equal length in ascending order of their start
  token, and candidates equal in both in their order of insertion; it accepts a candidate
  exactly when it shares no token with a candidate accepted before, and discards it
  otherwise; the accepted entities are returned in ascending order of their start token.
  This holds when every candidate has at least one token.
\<close>

theorem reconcile_greedy:
  "\<forall>c \<in> set (candidates nlp text). tok_start c < tok_end c \<Longrightarrow>
   accepted_ents nlp text =
     sort_key tok_start (greedy_accept (sort_key order_key (candidates nlp text)) [])"
  by (simp add: collect_accessors(5) filter_spans_greedy)

theorem reconcile_greedy_witness:
  "tok_start loc_span < tok_end loc_span \<and> tok_start telefone_span < tok_end telefone_span \<and>
   candidates tie_nlp ''11 1234-5678 SP'' = [loc_span, telefone_span] \<and>
   order_key telefone_span < order_key loc_span \<and>
   sort_key order_key [loc_span, telefone_span] = [telefone_span, loc_span] \<and>
   tok_overlap telefone_span loc_span \<and>
   greedy_accept [telefone_span, loc_span] [] = [telefone_span] \<and>
   accepted_ents tie_nlp ''11 1234-5678 SP'' = [telefone_span]"
proof -
  have h: "\<forall>c \<in> set (candidates tie_nlp ''11 1234-5678 SP''). tok_start c < tok_end c"
    by (simp add: tie_candidates loc_span_def telefone_span_def)
  have k: "order_key telefone_span < order_key loc_span"
    by (simp add: order_key_def loc_span_def telefone_span_def less_prod_def)
  have s: "sort_key order_key [loc_span, telefone_span] = [telefone_span, loc_span]"
    using k by (simp add: not_le)
  have o: "tok_overlap telefone_span loc_span"
    by (simp add: tok_overlap_def loc_span_def telefone_span_def)
  have g: "greedy_accept [telefone_span, loc_span] [] = [telefone_span]"
    using o by simp
  show ?thesis
    using reconcile_greedy [OF h] h k s o g
    by (simp add: tie_candidates loc_span_def telefone_span_def)
qed

text \<open>
  C7. The report lists its records in the order of insertion: first the entities of the
  extractor that carry one of the four labels, in the order of \<open>doc.ents\<close>; then the
  kept matches rule by rule, the rules in the order CPF, CNPJ, TELEFONE, EMAIL of their
  declaration; and within a rule from left to right, the starts of the matches strictly
  ascending.
\<close>

theorem report_order:
  "entity_report nlp text =
     map (entity_of text) (filter (\<lambda>ent. span_label ent \<in> set ner_labels) (ents (nlp text))) @
     concat (map (\<lambda>item. map (entity_of text)
                    (kept_matches (nlp text) (label item) (finditer (pattern item) text)))
               patterns) \<and>
   map label patterns = [''CPF'', ''CNPJ'', ''TELEFONE'', ''EMAIL''] \<and>
   (\<forall>item. sorted_wrt (<) (map fst (finditer (pattern item) text)) \<and>
      sorted_wrt (<) (map start_char
        (kept_matches (nlp text) (label item) (finditer (pattern item) text))))"
proof -
  have a: "entity_report nlp text =
     map (entity_of text) (filter (\<lambda>ent. span_label ent \<in> set ner_labels) (ents (nlp text))) @
     concat (map (\<lambda>item. map (entity_of text)
                    (kept_matches (nlp text) (label item) (finditer (pattern item) text)))
               patterns)"
    by (simp add: collect_accessors(2) matched_spans_def reported_ents_def map_concat comp_def)
  have b: "map label patterns = [''CPF'', ''CNPJ'', ''TELEFONE'', ''EMAIL'']"
    by (simp add: patterns_def)
  have c: "sorted_wrt (<) (map fst (finditer (pattern item) text)) \<and>
      sorted_wrt (<) (map start_char
        (kept_matches (nlp text) (label item) (finditer (pattern item) text)))" for item
    using finditer_sorted kept_matches_sorted by blast
  show ?thesis using a b c by blast
qed

theorem report_order_witness:
  "ents (example_nlp ''a@b.co ok'') = [per_span] \<and>
   kept_matches (example_nlp ''a@b.co ok'') ''EMAIL'' (finditer email_pattern ''a@b.co ok'') =
     [email_span] \<and>
   entity_report example_nlp ''a@b.co ok'' =
     [\<lparr>etext = ''a@b.co'', elabel = ''PER''\<rparr>, \<lparr>etext = ''a@b.co'', elabel = ''EMAIL''\<rparr>]"
proof -
  have k: "kept_matches example_doc ''EMAIL'' [(0, 6)] = [email_span]"
    by (simp add: kept_matches_def List.map_filter_simps char_span_def example_doc_def
          email_span_def)
  have n: "kept_matches example_doc lbl [] = []" for lbl
    by (simp add: kept_matches_def List.map_filter_simps)
  have r: "entity_report example_nlp ''a@b.co ok'' =
     map (entity_of ''a@b.co ok'')
       (filter (\<lambda>ent. span_label ent \<in> set ner_labels) (ents (example_nlp ''a@b.co ok''))) @
     concat (map (\<lambda>item. map (entity_of ''a@b.co ok'')
                    (kept_matches (example_nlp ''a@b.co ok'') (label item)
                       (finditer (pattern item) ''a@b.co ok'')))
               patterns)"
    using report_order [of example_nlp "''a@b.co ok''"] by blast
  have e: "entity_of ''a@b.co ok'' per_span = \<lparr>etext = ''a@b.co'', elabel = ''PER''\<rparr>"
    "entity_of ''a@b.co ok'' email_span = \<lparr>etext = ''a@b.co'', elabel = ''EMAIL''\<rparr>"
    by (simp_all add: entity_of_def span_text_def slice_def per_span_def email_span_def)
  have l: "span_label per_span \<in> set ner_labels" by (simp add: per_span_def ner_labels_def)
  show ?thesis
    unfolding r
    by (simp add: example_nlp_def example_ents example_finditer patterns_def k n e l)
qed

text \<open>
  C9. Every label of a record of the report is one of the eight strings PER, ORG, LOC,
  GPE, CPF, CNPJ, TELEFONE, EMAIL; and when the extractor keeps its contract, that is
  when every entity it returns carries one of the four linguistic labels, every label of
  an accepted entity of the returned document is one of the eight strings as well.
\<close>

theorem labels_closed:
  "(\<forall>r \<in> set (entity_report nlp text). elabel r \<in> set all_labels) \<and>
   ((\<forall>e \<in> set (ents (nlp text)). span_label e \<in> set ner_labels) \<longrightarrow>
      (\<forall>s \<in> set (accepted_ents nlp text). span_label s \<in> set all_labels))"
proof -
  have m: "span_label sp \<in> set all_labels"
    if "sp \<in> set (matched_spans (nlp text) text patterns)" for sp
    using matched_labels [OF that] by (auto simp: all_labels_def)
  have n: "set ner_labels \<subseteq> set all_labels" by (simp add: ner_labels_def all_labels_def)
  have a: "elabel r \<in> set all_labels" if r: "r \<in> set (entity_report nlp text)" for r
  proof -
    obtain sp where sp: "r = entity_of text sp"
      "sp \<in> set (reported_ents (nlp text)) \<union> set (matched_spans (nlp text) text patterns)"
      using r by (auto simp: collect_accessors(2))
    have "span_label sp \<in> set all_labels"
      using sp(2) m n by (auto simp: reported_ents_def)
    then show ?thesis by (simp add: sp(1) entity_of_def)
  qed
  have b: "span_label s \<in> set all_labels"
    if c: "\<forall>e \<in> set (ents (nlp text)). span_label e \<in> set ner_labels"
      and s: "s \<in> set (accepted_ents nlp text)" for s
  proof -
    have "s \<in> set (candidates nlp text)"
      using s filter_spans_subset by (auto simp: collect_accessors(5))
    then have "s \<in> set (ents (nlp text)) \<or> s \<in> set (matched_spans (nlp text) text patterns)"
      by (simp add: collect_accessors(1))
    then show ?thesis using c m n by blast
  qed
  show ?thesis using a b by blast
qed

theorem labels_closed_witness:
  "ents (example_nlp ''a@b.co ok'') = [per_span] \<and>
   span_label per_span \<in> set ner_labels \<and>
   map elabel (entity_report example_nlp ''a@b.co ok'') = [''PER'', ''EMAIL''] \<and>
   map span_label (accepted_ents example_nlp ''a@b.co ok'') = [''PER''] \<and>
   ''PER'' \<in> set all_labels \<and> ''EMAIL'' \<in> set all_labels"
proof -
  have h: "\<forall>e \<in> set (ents (example_nlp ''a@b.co ok'')). span_label e \<in> set ner_labels"
    by (simp add: example_nlp_def example_ents per_span_def ner_labels_def)
  show ?thesis
    using labels_closed [of example_nlp "''a@b.co ok''"] h
    by (simp add: example_nlp_def example_ents example_report example_accepted per_span_def
          ner_labels_def)
qed



end
